theory Spec2Isabelle
  imports Main "HOL-Library.Word" "HOL-Library.Sublist"
begin

unbundle bit_operations_syntax

section \<open>The 1973 learning program (1973/ttt\_reconstructed.c)\<close>

subsection \<open>Cells, board and board code\<close>

text \<open>
  The three cell values of the source, \<^verbatim>\<open>#define EMPTY 0\<close>, \<^verbatim>\<open>#define HUMAN 1\<close>
  and \<^verbatim>\<open>#define COMPUTER 2\<close>. The global \<^verbatim>\<open>char board[9]\<close> is a list of nine cells,
  passed explicitly; \<open>cell_val\<close> is the number a cell is stored as.
\<close>

datatype cell = EMPTY | HUMAN | COMPUTER

fun cell_val :: "cell \<Rightarrow> nat" where
  "cell_val EMPTY = 0"
| "cell_val HUMAN = 1"
| "cell_val COMPUTER = 2"

type_synonym board = "cell list"

text \<open>
  \<^verbatim>\<open>encode_board\<close>: \<^verbatim>\<open>result = 0; for (i = 0; i < 9; i++) result = result * 3 + board[i];\<close>
  with \<^verbatim>\<open>unsigned short result\<close>, a 16-bit word (the arithmetic is done in \<^verbatim>\<open>int\<close> and
  stored back modulo \<open>2 ^ 16\<close>, which is word arithmetic).
\<close>

definition encode_step :: "board \<Rightarrow> 16 word \<Rightarrow> nat \<Rightarrow> 16 word" where
  "encode_step b result i = result * 3 + of_nat (cell_val (b ! i))"

definition encode_board :: "board \<Rightarrow> 16 word" where
  "encode_board b = foldl (encode_step b) 0 [0..<9]"

text \<open>
  The formula of the specification, in its own words: \<open>\<Sum> cell[i] \<sqdot> 3 ^ i\<close> for
  \<open>i = 0..8\<close>, cell 0 the least significant digit. It is compared with the source below.
\<close>

definition spec_encode :: "board \<Rightarrow> nat" where
  "spec_encode b = (\<Sum>i\<leftarrow>[0..<9]. cell_val (b ! i) * 3 ^ i)"

text \<open>What the source's loop computes: cell 0 is the most significant digit.\<close>

definition horner_encode :: "board \<Rightarrow> nat" where
  "horner_encode b = (\<Sum>i\<leftarrow>[0..<9]. cell_val (b ! i) * 3 ^ (8 - i))"

definition boards :: "board set" where
  "boards = {b. length b = 9}"

text \<open>The value of the first \<open>n\<close> cells read as base-3 digits, most significant first.\<close>

fun digits_val :: "board \<Rightarrow> nat \<Rightarrow> nat" where
  "digits_val b 0 = 0"
| "digits_val b (Suc n) = 3 * digits_val b n + cell_val (b ! n)"

subsection \<open>The knowledge table\<close>

text \<open>
  \<^verbatim>\<open>struct kentry { unsigned short board; signed char weight; }\<close>. The weight is an
  8-bit word read as two's complement by \<open>sint\<close>. The global array
  \<^verbatim>\<open>knowledge[MAX_KNOWLEDGE]\<close> with its count \<^verbatim>\<open>nknowledge\<close> is the list of its first
  \<^verbatim>\<open>nknowledge\<close> entries: \<^verbatim>\<open>nknowledge\<close> is the length of the list.
\<close>

record kentry =
  board :: "16 word"
  weight :: "8 word"

definition MAX_KNOWLEDGE :: nat where
  "MAX_KNOWLEDGE = 200"

text \<open>\<^verbatim>\<open>lookup_weight\<close>: the weight of the first entry with the board's code, 0 if none.\<close>

fun lookup_loop :: "kentry list \<Rightarrow> 16 word \<Rightarrow> int" where
  "lookup_loop [] code = 0"
| "lookup_loop (e # es) code =
     (if board e = code then sint (weight e) else lookup_loop es code)"

definition lookup_weight :: "board \<Rightarrow> kentry list \<Rightarrow> int" where
  "lookup_weight b knowledge = lookup_loop knowledge (encode_board b)"

text \<open>
  \<^verbatim>\<open>find_or_create\<close>: the search loop returns the first index whose entry has the code;
  otherwise a new entry with weight 0 is stored at index \<^verbatim>\<open>nknowledge\<close> when
  \<^verbatim>\<open>nknowledge < MAX_KNOWLEDGE\<close>, and \<open>-1\<close> is returned when the table is full.
\<close>

fun find_entry :: "kentry list \<Rightarrow> 16 word \<Rightarrow> nat \<Rightarrow> nat option" where
  "find_entry [] code i = None"
| "find_entry (e # es) code i =
     (if board e = code then Some i else find_entry es code (Suc i))"

definition find_or_create :: "16 word \<Rightarrow> kentry list \<Rightarrow> int \<times> kentry list" where
  "find_or_create code knowledge =
     (case find_entry knowledge code 0 of
        Some i \<Rightarrow> (int i, knowledge)
      | None \<Rightarrow>
          if length knowledge < MAX_KNOWLEDGE
          then (int (length knowledge), knowledge @ [\<lparr>board = code, weight = 0\<rparr>])
          else (- 1, knowledge))"

subsection \<open>Move selection\<close>

text \<open>
  \<^verbatim>\<open>compute_move\<close>. The loop state is the board (the global is written and restored in
  the loop body), \<^verbatim>\<open>best_move\<close> and \<^verbatim>\<open>best_weight\<close>. \<open>try_move\<close> is one iteration
  of the first loop; the second loop is the search through \<^verbatim>\<open>priority\<close>. The function
  returns the move together with the board it leaves behind.
\<close>

definition try_move :: "kentry list \<Rightarrow> board \<times> int \<times> int \<Rightarrow> nat \<Rightarrow> board \<times> int \<times> int" where
  "try_move knowledge s i =
     (case s of (b, best_move, best_weight) \<Rightarrow>
        if b ! i = EMPTY then
          (let b1 = b[i := COMPUTER];
               weight = lookup_weight b1 knowledge;
               b2 = b1[i := EMPTY]
           in if weight > best_weight then (b2, int i, weight)
              else (b2, best_move, best_weight))
        else (b, best_move, best_weight))"

definition priority :: "nat list" where
  "priority = [4, 0, 2, 6, 8, 1, 3, 5, 7]"

definition compute_move :: "board \<Rightarrow> kentry list \<Rightarrow> int \<times> board" where
  "compute_move b knowledge =
     (case foldl (try_move knowledge) (b, - 1, - 1000) [0..<9] of
        (b', best_move, best_weight) \<Rightarrow>
          if best_move < 0 \<or> best_weight = 0 then
            (case find (\<lambda>p. b' ! p = EMPTY) priority of
               Some p \<Rightarrow> (int p, b')
             | None \<Rightarrow> (best_move, b'))
          else (best_move, b'))"

text \<open>
  The effect of one iteration of the first loop on \<^verbatim>\<open>best_move\<close> and \<^verbatim>\<open>best_weight\<close>
  alone, and the loop invariant once an empty cell has been seen.
\<close>

definition best_of :: "kentry list \<Rightarrow> board \<Rightarrow> int \<times> int \<Rightarrow> nat \<Rightarrow> int \<times> int" where
  "best_of knowledge b s i =
     (if b ! i = EMPTY \<and> lookup_weight (b[i := COMPUTER]) knowledge > snd s
      then (int i, lookup_weight (b[i := COMPUTER]) knowledge) else s)"

definition scanned :: "board \<Rightarrow> int \<times> int \<Rightarrow> bool" where
  "scanned b s \<longleftrightarrow> 0 \<le> fst s \<and> fst s \<le> 8 \<and> b ! nat (fst s) = EMPTY \<and> - 128 \<le> snd s"

text \<open>
  What the first loop has found after the cells below \<open>n\<close>, once one of them was empty:
  \<open>fst s\<close> is an empty cell, \<open>snd s\<close> is its weight, no empty cell below \<open>n\<close> has a greater
  weight and no empty cell before \<open>fst s\<close> has an equal one.
\<close>

definition first_max :: "kentry list \<Rightarrow> board \<Rightarrow> nat \<Rightarrow> int \<times> int \<Rightarrow> bool" where
  "first_max ks b n s \<longleftrightarrow>
     0 \<le> fst s \<and> nat (fst s) < n \<and> b ! nat (fst s) = EMPTY
     \<and> snd s = lookup_weight (b[nat (fst s) := COMPUTER]) ks
     \<and> (\<forall>i<n. b ! i = EMPTY \<longrightarrow> lookup_weight (b[i := COMPUTER]) ks \<le> snd s)
     \<and> (\<forall>i<nat (fst s). b ! i = EMPTY \<longrightarrow> lookup_weight (b[i := COMPUTER]) ks < snd s)"

subsection \<open>Learning\<close>

text \<open>
  The weight update of \<^verbatim>\<open>update_knowledge\<close>, statement by statement:
  \<^verbatim>\<open>knowledge[idx].weight += delta;\<close> computes the sum in \<^verbatim>\<open>int\<close> and stores it back
  into the \<^verbatim>\<open>signed char\<close> field, which keeps its low 8 bits (the conversion of an
  \<^verbatim>\<open>int\<close> out of range is implementation-defined in C; it is reduction modulo \<open>2 ^ 8\<close>
  on two's-complement compilers such as gcc and clang); then the two comparisons with
  127 and \<open>-128\<close> read the stored field.
\<close>

definition adjust_weight :: "8 word \<Rightarrow> int \<Rightarrow> 8 word" where
  "adjust_weight w delta =
     (let w1 = (word_of_int (sint w + delta) :: 8 word);
          w2 = (if sint w1 > 127 then 127 else w1);
          w3 = (if sint w2 < - 128 then word_of_int (- 128) else w2)
      in w3)"

text \<open>
  The weight change for an outcome: \<^verbatim>\<open>COMPUTER\<close> gives 3, 0 (a draw) gives 1, anything
  else gives \<open>-2\<close>.
\<close>

definition outcome_delta :: "int \<Rightarrow> int" where
  "outcome_delta outcome =
     (if outcome = int (cell_val COMPUTER) then 3 else if outcome = 0 then 1 else - 2)"

text \<open>
  One iteration of the replay loop of \<^verbatim>\<open>update_knowledge\<close>, on the board and the
  table. \<^verbatim>\<open>move_history\<close> holds the positions played, \<^verbatim>\<open>nmoves\<close> is its length; the
  driver only stores positions 0 to 8 in it.
\<close>

definition update_step ::
    "int \<Rightarrow> nat list \<Rightarrow> board \<times> kentry list \<Rightarrow> nat \<Rightarrow> board \<times> kentry list" where
  "update_step delta move_history s i =
     (case s of (b, knowledge) \<Rightarrow>
        let b' = (if i mod 2 = 0 then b[move_history ! i := HUMAN]
                  else b[move_history ! i := COMPUTER])
        in if i mod 2 = 1 then
             (case find_or_create (encode_board b') knowledge of
                (idx, knowledge') \<Rightarrow>
                  if idx \<ge> 0 then
                    (b', knowledge'[nat idx :=
                           (knowledge' ! nat idx)
                             \<lparr>weight := adjust_weight (weight (knowledge' ! nat idx)) delta\<rparr>])
                  else (b', knowledge'))
           else (b', knowledge))"

definition update_knowledge :: "int \<Rightarrow> nat list \<Rightarrow> kentry list \<Rightarrow> board \<times> kentry list" where
  "update_knowledge outcome move_history knowledge =
     foldl (update_step (outcome_delta outcome) move_history)
       (replicate 9 EMPTY, knowledge) [0..<length move_history]"

subsection \<open>The knowledge file\<close>

text \<open>
  \<^verbatim>\<open>save_knowledge\<close> writes three bytes per entry: \<^verbatim>\<open>board & 0xff\<close>,
  \<^verbatim>\<open>(board >> 8) & 0xff\<close>, \<^verbatim>\<open>weight\<close>. It returns \<open>-1\<close> and writes nothing when
  \<^verbatim>\<open>creat\<close> fails (\<open>creat_ok\<close> is False); otherwise the file holds the bytes and the
  result is \<^verbatim>\<open>nknowledge\<close>.
\<close>

definition entry_bytes :: "kentry \<Rightarrow> 8 word list" where
  "entry_bytes e =
     [ucast (board e AND 0xff), ucast (drop_bit 8 (board e) AND 0xff), weight e]"

definition save_knowledge :: "bool \<Rightarrow> kentry list \<Rightarrow> int \<times> 8 word list option" where
  "save_knowledge creat_ok knowledge =
     (if \<not> creat_ok then (- 1, None)
      else (int (length knowledge), Some (concat (map entry_bytes knowledge))))"

text \<open>
  \<^verbatim>\<open>load_knowledge\<close>: when \<^verbatim>\<open>open\<close> fails (the file is \<open>None\<close>) it returns 0 and leaves
  the table as it is. Otherwise \<^verbatim>\<open>nknowledge = 0\<close> and the loop takes three bytes at a
  time while a whole record is left and \<^verbatim>\<open>nknowledge < MAX_KNOWLEDGE\<close>, storing
  \<^verbatim>\<open>buf[0] | (buf[1] << 8)\<close> and \<^verbatim>\<open>(signed char)buf[2]\<close>.
\<close>

fun load_loop :: "8 word list \<Rightarrow> kentry list \<Rightarrow> kentry list" where
  "load_loop (b0 # b1 # b2 # rest) knowledge =
     (if length knowledge < MAX_KNOWLEDGE
      then load_loop rest
             (knowledge @ [\<lparr>board = ucast b0 OR push_bit 8 (ucast b1), weight = b2\<rparr>])
      else knowledge)"
| "load_loop bytes knowledge = knowledge"

definition load_knowledge :: "8 word list option \<Rightarrow> kentry list \<Rightarrow> int \<times> kentry list" where
  "load_knowledge file knowledge =
     (case file of
        None \<Rightarrow> (0, knowledge)
      | Some bytes \<Rightarrow> (let k = load_loop bytes [] in (int (length k), k)))"

text \<open>All complete three-byte records of a byte stream, decoded as the loop decodes them.\<close>

fun records :: "8 word list \<Rightarrow> kentry list" where
  "records (b0 # b1 # b2 # rest) =
     \<lparr>board = ucast b0 OR push_bit 8 (ucast b1), weight = b2\<rparr> # records rest"
| "records bytes = []"

section \<open>The 2024 rule program (2024/ttt\_optimal.c)\<close>

text \<open>
  The global \<^verbatim>\<open>char board[10]\<close> is a list of ten characters, passed explicitly;
  positions are 1 to 9 and index 0 is unused. \<open>board_init\<close> is the array as the
  declaration \<^verbatim>\<open>static char board[10] = "         "\<close> initialises it: the literal holds
  nine blanks, so indices 0 to 8 are blank and index 9 holds the terminating NUL. No
  statement of the program writes a blank, so position 9 is never blank and is never
  played: the game runs on positions 1 to 8.
\<close>

type_synonym grid = "char list"

definition board_init :: grid where
  "board_init = replicate 9 CHR '' '' @ [CHR 0x00]"

definition wins :: "nat list list" where
  "wins = [[1, 2, 3], [4, 5, 6], [7, 8, 9],
           [1, 4, 7], [2, 5, 8], [3, 6, 9],
           [1, 5, 9], [3, 5, 7]]"

definition check_win :: "char \<Rightarrow> grid \<Rightarrow> bool" where
  "check_win player g =
     list_ex (\<lambda>l. g ! (l ! 0) = player \<and> g ! (l ! 1) = player \<and> g ! (l ! 2) = player) wins"

text \<open>
  \<^verbatim>\<open>find_winning_move\<close>: \<open>line_scan\<close> is the inner loop over the three positions of a
  line, on \<^verbatim>\<open>count\<close> and \<^verbatim>\<open>empty\<close> (here \<open>empty_pos\<close>); the outer loop returns at the
  first line with \<^verbatim>\<open>count == 2 && empty > 0\<close>, and 0 after the last line.
\<close>

definition line_scan :: "char \<Rightarrow> grid \<Rightarrow> nat \<times> nat \<Rightarrow> nat \<Rightarrow> nat \<times> nat" where
  "line_scan player g s pos =
     (case s of (count, empty_pos) \<Rightarrow>
        if g ! pos = player then (count + 1, empty_pos)
        else if g ! pos = CHR '' '' then (count, pos)
        else (count, empty_pos))"

fun find_winning_loop :: "nat list list \<Rightarrow> char \<Rightarrow> grid \<Rightarrow> nat" where
  "find_winning_loop [] player g = 0"
| "find_winning_loop (l # ls) player g =
     (case foldl (line_scan player g) (0, 0) l of
        (count, empty_pos) \<Rightarrow>
          if count = 2 \<and> empty_pos > 0 then empty_pos else find_winning_loop ls player g)"

definition find_winning_move :: "char \<Rightarrow> grid \<Rightarrow> nat" where
  "find_winning_move player g = find_winning_loop wins player g"

definition corners :: "nat list" where
  "corners = [1, 3, 7, 9]"

definition opposite :: "nat list" where
  "opposite = [9, 7, 3, 1]"

definition edges :: "nat list" where
  "edges = [2, 4, 6, 8]"

text \<open>\<^verbatim>\<open>best_move\<close>: the five rules in the order of the source; 0 when no rule applies.\<close>

definition best_move :: "char \<Rightarrow> char \<Rightarrow> grid \<Rightarrow> nat" where
  "best_move me opponent g =
     (if find_winning_move me g > 0 then find_winning_move me g
      else if find_winning_move opponent g > 0 then find_winning_move opponent g
      else if g ! 5 = CHR '' '' then 5
      else
        (case find (\<lambda>i. g ! (corners ! i) = opponent \<and> g ! (opposite ! i) = CHR '' '') [0..<4] of
           Some i \<Rightarrow> opposite ! i
         | None \<Rightarrow>
             (case find (\<lambda>i. g ! (corners ! i) = CHR '' '') [0..<4] of
                Some i \<Rightarrow> corners ! i
              | None \<Rightarrow>
                  (case find (\<lambda>i. g ! (edges ! i) = CHR '' '') [0..<4] of
                     Some i \<Rightarrow> edges ! i
                   | None \<Rightarrow> 0))))"

text \<open>
  The turn loop of \<^verbatim>\<open>main\<close>, from a given turn and board. The human's input is the list
  of numbers \<^verbatim>\<open>scanf\<close> reads. A number outside 1 to 9 or on a position that is not blank
  is refused and the turn is repeated with the next number. When the input has run out
  \<^verbatim>\<open>scanf\<close> fails at every repetition and the loop never ends: that is the result
  \<open>None\<close>. The loop ends with a win of the player who has just moved, or with a draw
  after turn 8.
\<close>

datatype game_result = HumanWins | ComputerWins | Draw

function turns :: "char \<Rightarrow> char \<Rightarrow> nat \<Rightarrow> int list \<Rightarrow> grid \<Rightarrow> game_result option" where
  "turns human computer turn input g =
     (if turn < 9 then
        (if (if turn mod 2 = 0 then CHR ''X'' else CHR ''O'') = human then
           (case input of
              [] \<Rightarrow> None
            | move # rest \<Rightarrow>
                if move < 1 \<or> move > 9 \<or> g ! nat move \<noteq> CHR '' ''
                then turns human computer turn rest g
                else if check_win human (g[nat move := human]) then Some HumanWins
                else turns human computer (turn + 1) rest (g[nat move := human]))
         else
           (if check_win computer (g[best_move computer human g := computer])
            then Some ComputerWins
            else turns human computer (turn + 1) input
                   (g[best_move computer human g := computer])))
      else Some Draw)"
  by pat_completeness auto
termination
  by (relation "measure (\<lambda>(human, computer, turn, input, g). (9 - turn) + length input)") auto


section \<open>Properties of the 1973 program\<close>

subsection \<open>The board code\<close>

lemma cell_val_le: "cell_val c \<le> 2"
  by (cases c) simp_all

lemma cell_val_inj: "cell_val c = cell_val d \<Longrightarrow> c = d"
  by (cases c; cases d) simp_all

lemma digits_val_less: "digits_val b n < 3 ^ n"
proof (induction n)
  case 0
  show ?case by simp
next
  case (Suc n)
  have "cell_val (b ! n) \<le> 2" by (rule cell_val_le)
  with Suc show ?case by simp
qed

lemma foldl_encode_step: "foldl (encode_step b) 0 [0..<n] = of_nat (digits_val b n)"
  by (induction n) (simp_all add: encode_step_def)

lemma digits_val_sum:
  "digits_val b n = (\<Sum>i\<leftarrow>[0..<n]. cell_val (b ! i) * 3 ^ (n - 1 - i))"
proof (induction n)
  case 0
  show ?case by simp
next
  case (Suc n)
  have "3 * (\<Sum>i\<leftarrow>[0..<n]. cell_val (b ! i) * 3 ^ (n - 1 - i))
      = (\<Sum>i\<leftarrow>[0..<n]. cell_val (b ! i) * 3 ^ (n - i))"
  proof -
    have "\<And>i. i \<in> set [0..<n] \<Longrightarrow>
        3 * (cell_val (b ! i) * 3 ^ (n - 1 - i)) = cell_val (b ! i) * 3 ^ (n - i)"
    proof -
      fix i assume "i \<in> set [0..<n]"
      then have "n - i = Suc (n - 1 - i)" by simp
      then show "3 * (cell_val (b ! i) * 3 ^ (n - 1 - i)) = cell_val (b ! i) * 3 ^ (n - i)"
        by simp
    qed
    then have "map (\<lambda>i. 3 * (cell_val (b ! i) * 3 ^ (n - 1 - i))) [0..<n]
        = map (\<lambda>i. cell_val (b ! i) * 3 ^ (n - i)) [0..<n]"
      by (intro map_cong refl)
    then have "(\<Sum>i\<leftarrow>[0..<n]. 3 * (cell_val (b ! i) * 3 ^ (n - 1 - i)))
        = (\<Sum>i\<leftarrow>[0..<n]. cell_val (b ! i) * 3 ^ (n - i))"
      by (rule arg_cong)
    then show ?thesis by (simp only: sum_list_const_mult)
  qed
  with Suc show ?case by simp
qed

lemma digits_val_horner: "digits_val b 9 = horner_encode b"
  by (simp add: horner_encode_def digits_val_sum)

lemma unat_encode_board: "unat (encode_board b) = digits_val b 9"
proof -
  have "digits_val b 9 < 3 ^ 9" by (rule digits_val_less)
  then have "digits_val b 9 < 2 ^ 16" by simp
  then have "unat (of_nat (digits_val b 9) :: 16 word) = digits_val b 9"
    by (simp add: unat_of_nat)
  then show ?thesis by (simp add: encode_board_def foldl_encode_step)
qed

lemma digits_val_inj:
  "digits_val b n = digits_val b' n \<Longrightarrow> i < n \<Longrightarrow> b ! i = b' ! i"
proof (induction n arbitrary: i)
  case 0
  then show ?case by simp
next
  case (Suc n)
  let ?x = "cell_val (b ! n)" and ?y = "cell_val (b' ! n)"
  have eq: "3 * digits_val b n + ?x = 3 * digits_val b' n + ?y"
    using Suc.prems(1) by simp
  have bx: "?x \<le> 2" and by': "?y \<le> 2" by (rule cell_val_le)+
  from eq bx by' have xy: "?x = ?y" by presburger
  with eq have dv: "digits_val b n = digits_val b' n" by simp
  show ?case
  proof (cases "i = n")
    case True
    with xy show ?thesis by (simp add: cell_val_inj)
  next
    case False
    with Suc.prems(2) have "i < n" by simp
    with dv show ?thesis by (rule Suc.IH[rotated -1, rotated])
  qed
qed

lemma encode_board_inj: "inj_on encode_board boards"
proof (rule inj_onI)
  fix b b' assume b: "b \<in> boards" and b': "b' \<in> boards"
    and eq: "encode_board b = encode_board b'"
  from eq have "digits_val b 9 = digits_val b' 9"
    by (metis unat_encode_board)
  then have "\<And>i. i < 9 \<Longrightarrow> b ! i = b' ! i" by (rule digits_val_inj)
  with b b' show "b = b'" by (auto simp: boards_def intro: nth_equalityI)
qed

lemma card_boards: "card boards = 19683 \<and> finite boards"
proof -
  have U: "(UNIV :: cell set) = {EMPTY, HUMAN, COMPUTER}"
    by (auto intro: cell.exhaust)
  have "boards = {xs. set xs \<subseteq> (UNIV :: cell set) \<and> length xs = 9}"
    by (simp add: boards_def)
  moreover have "card (UNIV :: cell set) = 3" by (simp add: U)
  moreover have "finite (UNIV :: cell set)" by (simp add: U)
  ultimately show ?thesis
    using card_lists_length_eq [of "UNIV :: cell set" 9]
      finite_lists_length_eq [of "UNIV :: cell set" 9] by simp
qed

lemma encode_board_le: "encode_board b \<le> 19682"
proof -
  have "digits_val b 9 < 3 ^ 9" by (rule digits_val_less)
  then have "unat (encode_board b) \<le> 19682" by (simp add: unat_encode_board)
  then show ?thesis by (simp add: word_le_nat_alt)
qed

lemma card_codes: "card {c :: 16 word. c \<le> 19682} = 19683"
proof -
  have "{c :: 16 word. c \<le> 19682} = of_nat ` {0..<19683}"
  proof (rule set_eqI, rule iffI)
    fix c :: "16 word" assume "c \<in> {c. c \<le> 19682}"
    then have "unat c < 19683" by (simp add: word_le_nat_alt)
    then have "unat c \<in> {0..<19683}" by simp
    moreover have "c = of_nat (unat c)" by simp
    ultimately show "c \<in> of_nat ` {0..<19683}" by (rule rev_image_eqI)
  next
    fix c :: "16 word" assume "c \<in> of_nat ` {0..<19683}"
    then obtain n where n: "n < 19683" and c: "c = of_nat n" by auto
    from n have "unat c = n" by (simp add: c unat_of_nat)
    with n show "c \<in> {c. c \<le> 19682}" by (simp add: word_le_nat_alt)
  qed
  moreover have "inj_on (of_nat :: nat \<Rightarrow> 16 word) {0..<19683}"
  proof (rule inj_onI)
    fix x y :: nat assume "x \<in> {0..<19683}" "y \<in> {0..<19683}"
      and "(of_nat x :: 16 word) = of_nat y"
    then have "unat (of_nat x :: 16 word) = unat (of_nat y :: 16 word)" "x < 2 ^ 16" "y < 2 ^ 16"
      by simp_all
    then show "x = y" by (simp add: unat_of_nat)
  qed
  ultimately show ?thesis by (simp add: card_image)
qed

text \<open>
  Claim C2, as amended. For every board, \<^verbatim>\<open>encode_board\<close> returns
  \<open>\<Sum> cell[i] \<sqdot> 3 ^ (8 - i)\<close> for \<open>i = 0..8\<close>, with \<^verbatim>\<open>EMPTY\<close> = 0, \<^verbatim>\<open>HUMAN\<close> = 1 and
  \<^verbatim>\<open>COMPUTER\<close> = 2: cell 0 is the most significant base-3 digit, cell 8 the least
  significant one. On the nine-cell boards the code is a bijection onto the codes 0 to
  19682.
\<close>

theorem encode_board_base3:
  "unat (encode_board b) = horner_encode b \<and> bij_betw encode_board boards {c. c \<le> 19682}"
proof
  show "unat (encode_board b) = horner_encode b"
    by (simp add: unat_encode_board digits_val_horner)
  have sub: "encode_board ` boards \<subseteq> {c. c \<le> 19682}"
    by (auto simp: encode_board_le)
  have "card (encode_board ` boards) = 19683"
    by (simp add: card_image encode_board_inj card_boards)
  with sub have "encode_board ` boards = {c. c \<le> 19682}"
    by (intro card_subset_eq) (simp_all add: card_codes)
  with encode_board_inj show "bij_betw encode_board boards {c. c \<le> 19682}"
    by (simp add: bij_betw_def)
qed

text \<open>
  Claim C2 as stated fails: on the board whose only mark is \<^verbatim>\<open>HUMAN\<close> in cell 0 the
  source returns \<open>3 ^ 8 = 6561\<close>, and the formula with cell 0 as least significant digit
  gives 1.
\<close>

theorem encode_board_lsb_counterexample:
  "unat (encode_board [HUMAN, EMPTY, EMPTY, EMPTY, EMPTY, EMPTY, EMPTY, EMPTY, EMPTY])
     \<noteq> spec_encode [HUMAN, EMPTY, EMPTY, EMPTY, EMPTY, EMPTY, EMPTY, EMPTY, EMPTY]"
  by code_simp

subsection \<open>The knowledge table\<close>

lemma find_entry_None: "find_entry ks code i = None \<longleftrightarrow> code \<notin> set (map board ks)"
  by (induction ks arbitrary: i) auto

lemma find_entry_Some:
  "find_entry ks code i = Some j \<Longrightarrow>
     \<exists>k<length ks. j = i + k \<and> board (ks ! k) = code \<and> (\<forall>m<k. board (ks ! m) \<noteq> code)"
proof (induction ks arbitrary: i)
  case Nil
  then show ?case by simp
next
  case (Cons e es)
  show ?case
  proof (cases "board e = code")
    case True
    with Cons.prems have "j = i + 0" by simp
    with True show ?thesis by (intro exI [of _ 0]) simp
  next
    case False
    with Cons.prems have "find_entry es code (Suc i) = Some j" by simp
    from Cons.IH [OF this] obtain k where k: "k < length es" "j = Suc i + k"
      "board (es ! k) = code" "\<forall>m<k. board (es ! m) \<noteq> code" by blast
    from k(4) False have "\<forall>m<Suc k. board ((e # es) ! m) \<noteq> code"
      by (auto simp: less_Suc_eq_0_disj)
    with k(1,2,3) show ?thesis by (intro exI [of _ "Suc k"]) simp
  qed
qed

lemma find_or_create_found:
  assumes "code \<in> set (map board ks)"
  shows "\<exists>i<length ks. board (ks ! i) = code \<and> find_or_create code ks = (int i, ks)"
proof -
  from assms obtain j where j: "find_entry ks code 0 = Some j"
    using find_entry_None [of ks code 0] by (cases "find_entry ks code 0") auto
  from find_entry_Some [OF j] have "j < length ks" "board (ks ! j) = code" by auto
  with j show ?thesis by (auto simp: find_or_create_def)
qed

lemma find_or_create_absent:
  assumes "code \<notin> set (map board ks)"
  shows "find_or_create code ks =
     (if length ks < 200 then (int (length ks), ks @ [\<lparr>board = code, weight = 0\<rparr>])
      else (- 1, ks))"
  using assms find_entry_None [of ks code 0]
  by (simp add: find_or_create_def MAX_KNOWLEDGE_def)

text \<open>
  Claim C8. \<^verbatim>\<open>find_or_create\<close> returns the index of an entry with the code and leaves the
  table as it is when the code is present; it appends an entry with weight 0 and returns
  its index when the code is absent and fewer than 200 entries are stored; it returns
  \<open>-1\<close> and leaves the table as it is when the code is absent and 200 entries are stored.
  So distinct board codes stay distinct, and the old table is a prefix of the new one: no
  entry is removed or changed.
\<close>

theorem find_or_create_cases:
  "(code \<in> set (map board knowledge) \<longrightarrow>
      (\<exists>i<length knowledge. board (knowledge ! i) = code \<and>
         find_or_create code knowledge = (int i, knowledge)))
   \<and> (code \<notin> set (map board knowledge) \<and> length knowledge < 200 \<longrightarrow>
        find_or_create code knowledge =
          (int (length knowledge), knowledge @ [\<lparr>board = code, weight = 0\<rparr>]))
   \<and> (code \<notin> set (map board knowledge) \<and> 200 \<le> length knowledge \<longrightarrow>
        find_or_create code knowledge = (- 1, knowledge))
   \<and> (distinct (map board knowledge) \<longrightarrow>
        distinct (map board (snd (find_or_create code knowledge))))
   \<and> prefix knowledge (snd (find_or_create code knowledge))"
proof (cases "code \<in> set (map board knowledge)")
  case True
  from find_or_create_found [OF True] obtain i where
    i: "i < length knowledge" "board (knowledge ! i) = code"
       "find_or_create code knowledge = (int i, knowledge)" by blast
  with True show ?thesis by auto
next
  case False
  note eq = find_or_create_absent [OF False]
  show ?thesis
  proof (cases "length knowledge < 200")
    case True
    with False eq show ?thesis by auto
  next
    case False
    with \<open>code \<notin> set (map board knowledge)\<close> eq show ?thesis by auto
  qed
qed

theorem find_or_create_cases_witness:
  "find_or_create 7 [\<lparr>board = 7, weight = 5\<rparr>] = (0, [\<lparr>board = 7, weight = 5\<rparr>])
   \<and> find_or_create 9 [\<lparr>board = 7, weight = 5\<rparr>]
       = (1, [\<lparr>board = 7, weight = 5\<rparr>, \<lparr>board = 9, weight = 0\<rparr>])
   \<and> find_or_create 500 (map (\<lambda>i. \<lparr>board = of_nat i, weight = 0\<rparr>) [0..<200])
       = (- 1, map (\<lambda>i. \<lparr>board = of_nat i, weight = 0\<rparr>) [0..<200])
   \<and> distinct (map board (snd (find_or_create 9 [\<lparr>board = 7, weight = 5\<rparr>])))"
proof -
  let ?k = "[\<lparr>board = 7, weight = 5\<rparr>]"
  let ?full = "map (\<lambda>i. \<lparr>board = of_nat i, weight = 0\<rparr>) [0..<200]"
  have h1: "(7 :: 16 word) \<in> set (map board ?k)" by simp
  have h2: "(9 :: 16 word) \<notin> set (map board ?k) \<and> length ?k < 200" by simp
  have h3: "(500 :: 16 word) \<notin> set (map board ?full) \<and> 200 \<le> length ?full" by code_simp
  have h4: "distinct (map board ?k)" by simp
  from find_or_create_cases [of 7 ?k] h1
  have "\<exists>i<length ?k. board (?k ! i) = 7 \<and> find_or_create 7 ?k = (int i, ?k)" by blast
  then have c1: "find_or_create 7 ?k = (0, ?k)" by simp
  from find_or_create_cases [of 9 ?k] h2 h4
  have c2: "find_or_create 9 ?k = (int (length ?k), ?k @ [\<lparr>board = 9, weight = 0\<rparr>])"
    and c4: "distinct (map board (snd (find_or_create 9 ?k)))" by blast+
  from find_or_create_cases [of 500 ?full] h3
  have c3: "find_or_create 500 ?full = (- 1, ?full)" by blast
  from c1 c2 c3 c4 show ?thesis by simp
qed

subsection \<open>Move selection\<close>

lemma try_move_best_of: "try_move ks (b, s) i = (b, best_of ks b s i)"
proof (cases "b ! i = EMPTY")
  case True
  then have "b[i := COMPUTER, i := EMPTY] = b"
    by (metis list_update_id list_update_overwrite)
  with True show ?thesis
    by (cases s) (simp add: try_move_def best_of_def Let_def)
next
  case False
  then show ?thesis by (cases s) (simp add: try_move_def best_of_def)
qed

lemma foldl_try_move: "foldl (try_move ks) (b, s) is = (b, foldl (best_of ks b) s is)"
  by (induction "is" arbitrary: s) (simp_all add: try_move_best_of)

lemma compute_move_eq:
  "compute_move b ks =
     (case foldl (best_of ks b) (- 1, - 1000) [0..<9] of
        (bm, bw) \<Rightarrow>
          if bm < 0 \<or> bw = 0 then
            (case find (\<lambda>p. b ! p = EMPTY) priority of
               Some p \<Rightarrow> (int p, b)
             | None \<Rightarrow> (bm, b))
          else (bm, b))"
  by (simp add: compute_move_def foldl_try_move split: prod.splits)

text \<open>
  Claim C9. \<^verbatim>\<open>compute_move\<close> leaves the board as it found it: every cell it sets to
  \<^verbatim>\<open>COMPUTER\<close> to look a candidate up was \<^verbatim>\<open>EMPTY\<close> and is set back to \<^verbatim>\<open>EMPTY\<close>.
\<close>

theorem compute_move_board_unchanged: "snd (compute_move b knowledge) = b"
  by (simp add: compute_move_eq split: prod.splits option.splits)

lemma lookup_loop_ge: "- 128 \<le> lookup_loop ks code"
proof (induction ks)
  case Nil
  show ?case by simp
next
  case (Cons e es)
  have "- 128 \<le> sint (weight e)" using sint_ge [of "weight e"] by simp
  with Cons show ?case by simp
qed

lemma lookup_weight_ge: "- 128 \<le> lookup_weight b ks"
  by (simp add: lookup_weight_def lookup_loop_ge)

lemma best_of_scanned:
  "i < 9 \<Longrightarrow> scanned b s \<Longrightarrow> scanned b (best_of ks b s i)"
  using lookup_weight_ge [of "b[i := COMPUTER]" ks]
  by (auto simp: scanned_def best_of_def)

lemma best_of_first:
  "i < 9 \<Longrightarrow> b ! i = EMPTY \<Longrightarrow> s = (- 1, - 1000) \<Longrightarrow> scanned b (best_of ks b s i)"
  using lookup_weight_ge [of "b[i := COMPUTER]" ks]
  by (auto simp: scanned_def best_of_def)

lemma best_of_none: "b ! i \<noteq> EMPTY \<Longrightarrow> best_of ks b s i = s"
  by (simp add: best_of_def)

lemma foldl_best_of:
  "n \<le> 9 \<Longrightarrow>
     (if \<exists>i<n. b ! i = EMPTY then scanned b (foldl (best_of ks b) (- 1, - 1000) [0..<n])
      else foldl (best_of ks b) (- 1, - 1000) [0..<n] = (- 1, - 1000))"
proof (induction n)
  case 0
  show ?case by simp
next
  case (Suc n)
  let ?s = "foldl (best_of ks b) (- 1, - 1000) [0..<n]"
  from Suc.prems have n: "n < 9" by simp
  have step: "foldl (best_of ks b) (- 1, - 1000) [0..<Suc n] = best_of ks b ?s n" by simp
  show ?case
  proof (cases "\<exists>i<n. b ! i = EMPTY")
    case True
    with Suc have "scanned b ?s" by simp
    with n have "scanned b (best_of ks b ?s n)" by (rule best_of_scanned)
    moreover from True have "\<exists>i<Suc n. b ! i = EMPTY" using less_Suc_eq by blast
    ultimately show ?thesis by (simp only: step if_True)
  next
    case False
    with Suc have s: "?s = (- 1, - 1000)" by simp
    show ?thesis
    proof (cases "b ! n = EMPTY")
      case True
      with n s have "scanned b (best_of ks b ?s n)" by (intro best_of_first)
      moreover from True have "\<exists>i<Suc n. b ! i = EMPTY" by blast
      ultimately show ?thesis by (simp only: step if_True)
    next
      case bn: False
      with False have "\<not> (\<exists>i<Suc n. b ! i = EMPTY)" by (auto simp: less_Suc_eq)
      moreover from bn s have "best_of ks b ?s n = (- 1, - 1000)" by (simp add: best_of_none)
      ultimately show ?thesis by (simp only: step if_False)
    qed
  qed
qed

lemma set_priority: "set priority = {0..<9}"
  by (auto simp: priority_def)

lemma find_priority_None:
  "length b = 9 \<Longrightarrow> find (\<lambda>p. b ! p = EMPTY) priority = None \<longleftrightarrow> EMPTY \<notin> set b"
  by (auto simp: find_None_iff set_priority in_set_conv_nth)

lemma find_priority_Some:
  "find (\<lambda>p. b ! p = EMPTY) priority = Some p \<Longrightarrow> p < 9 \<and> b ! p = EMPTY"
proof -
  assume "find (\<lambda>p. b ! p = EMPTY) priority = Some p"
  then have "p \<in> set priority \<and> b ! p = EMPTY"
    by (auto simp: find_Some_iff in_set_conv_nth)
  then show ?thesis by (simp add: set_priority)
qed

text \<open>
  Claim C10. On a nine-cell board with an empty cell, \<^verbatim>\<open>compute_move\<close> returns a position
  from 0 to 8 whose cell is empty, for every knowledge table; it returns \<open>-1\<close> exactly when
  no cell is empty.
\<close>

theorem compute_move_legal:
  assumes "length b = 9"
  shows "(EMPTY \<in> set b \<longrightarrow>
            0 \<le> fst (compute_move b knowledge) \<and> fst (compute_move b knowledge) \<le> 8
            \<and> b ! nat (fst (compute_move b knowledge)) = EMPTY)
       \<and> (fst (compute_move b knowledge) = - 1 \<longleftrightarrow> EMPTY \<notin> set b)"
proof (cases "EMPTY \<in> set b")
  case True
  with assms have ex: "\<exists>i<9. b ! i = EMPTY" by (auto simp: in_set_conv_nth)
  obtain bm bw where s: "foldl (best_of knowledge b) (- 1, - 1000) [0..<9] = (bm, bw)"
    by (cases "foldl (best_of knowledge b) (- 1, - 1000) [0..<9]")
  from foldl_best_of [of 9 b knowledge] ex s have sc: "scanned b (bm, bw)" by simp
  from True assms obtain p where p: "find (\<lambda>p. b ! p = EMPTY) priority = Some p"
    using find_priority_None [of b] by (cases "find (\<lambda>p. b ! p = EMPTY) priority") auto
  from find_priority_Some [OF p] have pp: "p < 9" "b ! p = EMPTY" by simp_all
  have "fst (compute_move b knowledge) = (if bm < 0 \<or> bw = 0 then int p else bm)"
    by (simp add: compute_move_eq s p)
  with sc pp True show ?thesis by (auto simp: scanned_def)
next
  case False
  with assms have nex: "\<not> (\<exists>i<9. b ! i = EMPTY)" by (auto simp: in_set_conv_nth)
  from foldl_best_of [of 9 b knowledge] nex
  have s: "foldl (best_of knowledge b) (- 1, - 1000) [0..<9] = (- 1, - 1000)" by simp
  from False assms have p: "find (\<lambda>p. b ! p = EMPTY) priority = None"
    by (simp add: find_priority_None)
  have "fst (compute_move b knowledge) = - 1"
    by (simp add: compute_move_eq s p)
  with False show ?thesis by simp
qed

theorem compute_move_legal_witness:
  "fst (compute_move [HUMAN, EMPTY, EMPTY, EMPTY, COMPUTER, EMPTY, EMPTY, EMPTY, EMPTY]
          [\<lparr>board = 11097, weight = 5\<rparr>]) = 1
   \<and> fst (compute_move [HUMAN, COMPUTER, HUMAN, HUMAN, COMPUTER, COMPUTER, COMPUTER, HUMAN, HUMAN]
          []) = - 1"
proof -
  let ?b = "[HUMAN, EMPTY, EMPTY, EMPTY, COMPUTER, EMPTY, EMPTY, EMPTY, EMPTY]"
  let ?f = "[HUMAN, COMPUTER, HUMAN, HUMAN, COMPUTER, COMPUTER, COMPUTER, HUMAN, HUMAN]"
  let ?k = "[\<lparr>board = 11097, weight = 5\<rparr>]"
  have l1: "length ?b = 9" and e1: "EMPTY \<in> set ?b" by simp_all
  have l2: "length ?f = 9" and e2: "EMPTY \<notin> set ?f" by simp_all
  from compute_move_legal [OF l1, of ?k] e1
  have "0 \<le> fst (compute_move ?b ?k) \<and> fst (compute_move ?b ?k) \<le> 8
        \<and> ?b ! nat (fst (compute_move ?b ?k)) = EMPTY" by blast
  moreover have "fst (compute_move ?b ?k) = 1" by code_simp
  moreover from compute_move_legal [OF l2, of "[]"] e2
  have "fst (compute_move ?f []) = - 1" by blast
  ultimately show ?thesis by simp
qed

lemma best_of_first_max:
  assumes "first_max ks b n s"
  shows "first_max ks b (Suc n) (best_of ks b s n)"
proof (cases "b ! n = EMPTY \<and> lookup_weight (b[n := COMPUTER]) ks > snd s")
  case True
  then have eq: "best_of ks b s n = (int n, lookup_weight (b[n := COMPUTER]) ks)"
    by (simp add: best_of_def)
  from assms True show ?thesis
    unfolding eq first_max_def by (auto simp: less_Suc_eq)
next
  case False
  then have eq: "best_of ks b s n = s" by (auto simp: best_of_def)
  from assms False show ?thesis
    unfolding eq first_max_def by (auto simp: less_Suc_eq)
qed

lemma best_of_first_max_start:
  assumes "b ! n = EMPTY" and "\<forall>i<n. b ! i \<noteq> EMPTY"
  shows "first_max ks b (Suc n) (best_of ks b (- 1, - 1000) n)"
proof -
  have "lookup_weight (b[n := COMPUTER]) ks > - 1000"
    using lookup_weight_ge [of "b[n := COMPUTER]" ks] by simp
  with assms have eq: "best_of ks b (- 1, - 1000) n = (int n, lookup_weight (b[n := COMPUTER]) ks)"
    by (simp add: best_of_def)
  from assms show ?thesis
    unfolding eq first_max_def by (auto simp: less_Suc_eq)
qed

lemma foldl_best_of_none:
  "\<forall>i<n. b ! i \<noteq> EMPTY \<Longrightarrow> foldl (best_of ks b) s [0..<n] = s"
  by (induction n) (simp_all add: best_of_none)

lemma foldl_first_max:
  "\<exists>i<n. b ! i = EMPTY \<Longrightarrow> first_max ks b n (foldl (best_of ks b) (- 1, - 1000) [0..<n])"
proof (induction n)
  case 0
  then show ?case by simp
next
  case (Suc n)
  let ?s = "foldl (best_of ks b) (- 1, - 1000) [0..<n]"
  have step: "foldl (best_of ks b) (- 1, - 1000) [0..<Suc n] = best_of ks b ?s n" by simp
  show ?case
  proof (cases "\<exists>i<n. b ! i = EMPTY")
    case True
    then have "first_max ks b n ?s" by (rule Suc.IH)
    then show ?thesis unfolding step by (rule best_of_first_max)
  next
    case False
    then have none: "\<forall>i<n. b ! i \<noteq> EMPTY" by simp
    with Suc.prems have bn: "b ! n = EMPTY" by (auto simp: less_Suc_eq)
    from none have "?s = (- 1, - 1000)" by (rule foldl_best_of_none)
    with bn none show ?thesis unfolding step by (simp add: best_of_first_max_start)
  qed
qed


text \<open>
  What \<^verbatim>\<open>compute_move\<close> returns on a board with an empty cell: with \<open>m\<close> the first empty
  cell of greatest weight \<open>bw\<close>, it returns \<open>m\<close> when \<open>bw\<close> is not 0, and the first empty cell
  in priority order when \<open>bw\<close> is 0.
\<close>

lemma compute_move_result:
  assumes "length b = 9" and "EMPTY \<in> set b"
  shows "\<exists>m bw. first_max ks b 9 (int m, bw)
           \<and> fst (compute_move b ks)
               = (if bw = 0 then int (the (find (\<lambda>p. b ! p = EMPTY) priority)) else int m)"
proof -
  from assms have ex: "\<exists>i<9. b ! i = EMPTY" by (auto simp: in_set_conv_nth)
  obtain bm bw where s: "foldl (best_of ks b) (- 1, - 1000) [0..<9] = (bm, bw)"
    by (cases "foldl (best_of ks b) (- 1, - 1000) [0..<9]")
  from foldl_first_max [OF ex, of ks] s have fm: "first_max ks b 9 (bm, bw)" by simp
  then have bm: "0 \<le> bm" by (simp add: first_max_def)
  from assms obtain p where p: "find (\<lambda>p. b ! p = EMPTY) priority = Some p"
    using find_priority_None [of b] by (cases "find (\<lambda>p. b ! p = EMPTY) priority") auto
  have "fst (compute_move b ks) = (if bw = 0 then int p else bm)"
    using bm by (simp add: compute_move_eq s p)
  with fm bm p show ?thesis
    by (intro exI [of _ "nat bm"] exI [of _ bw]) simp
qed

text \<open>
  Claim C4. \<^verbatim>\<open>compute_move\<close> takes the priority order whenever the greatest weight found
  is 0, also when other candidates have negative weights, and then returns the first
  empty cell of that order whatever its weight. With an empty table the program answers
  the human's moves 0, 1, 6 with 4, 2, 8 and the human wins with 3. After this lost game
  the board reached by answering the human's corner 0 with the centre has weight \<open>-2\<close> and
  every other answer has weight 0; the function still returns the centre, 4, where the
  claim has it return 1, the first candidate of greatest weight.
\<close>

theorem compute_move_repeats_lost_move:
  "fst (compute_move [HUMAN, EMPTY, EMPTY, EMPTY, EMPTY, EMPTY, EMPTY, EMPTY, EMPTY] []) = 4
   \<and> fst (compute_move [HUMAN, HUMAN, EMPTY, EMPTY, COMPUTER, EMPTY, EMPTY, EMPTY, EMPTY] []) = 2
   \<and> fst (compute_move [HUMAN, HUMAN, COMPUTER, EMPTY, COMPUTER, EMPTY, HUMAN, EMPTY, EMPTY] [])
       = 8
   \<and> snd (update_knowledge 1 [0, 4, 1, 2, 6, 8, 3] [])
     = [\<lparr>board = 6723, weight = 254\<rparr>, \<lparr>board = 10368, weight = 254\<rparr>,
        \<lparr>board = 10379, weight = 254\<rparr>]
   \<and> lookup_weight [HUMAN, EMPTY, EMPTY, EMPTY, COMPUTER, EMPTY, EMPTY, EMPTY, EMPTY]
        (snd (update_knowledge 1 [0, 4, 1, 2, 6, 8, 3] [])) = - 2
   \<and> lookup_weight [HUMAN, COMPUTER, EMPTY, EMPTY, EMPTY, EMPTY, EMPTY, EMPTY, EMPTY]
        (snd (update_knowledge 1 [0, 4, 1, 2, 6, 8, 3] [])) = 0
   \<and> fst (compute_move [HUMAN, EMPTY, EMPTY, EMPTY, EMPTY, EMPTY, EMPTY, EMPTY, EMPTY]
        (snd (update_knowledge 1 [0, 4, 1, 2, 6, 8, 3] []))) = 4"
  by code_simp

subsection \<open>Learning\<close>

lemma sint_byte_range: "- 128 \<le> sint (w :: 8 word) \<and> sint w \<le> 127"
  using sint_ge [of w] sint_lt [of w] by simp

lemma adjust_weight_eq: "adjust_weight w delta = w + word_of_int delta"
proof -
  let ?w1 = "word_of_int (sint w + delta) :: 8 word"
  have "\<not> sint ?w1 > 127" and "\<not> sint ?w1 < - 128"
    using sint_byte_range [of ?w1] by simp_all
  then show ?thesis by (simp add: adjust_weight_def Let_def)
qed

lemma adjust_weight_in_range:
  assumes "- 128 \<le> sint w + delta" and "sint w + delta \<le> 127"
  shows "sint (adjust_weight w delta) = sint w + delta"
proof -
  have "adjust_weight w delta = word_of_int (sint w + delta)"
    by (simp add: adjust_weight_eq)
  then have "sint (adjust_weight w delta) = signed_take_bit 7 (sint w + delta)"
    by (simp only: sint_sbintrunc') simp
  also from assms have "\<dots> = sint w + delta"
    by (intro signed_take_bit_int_eq_self) simp_all
  finally show ?thesis .
qed

lemma adjust_weight_funpow:
  "((\<lambda>w. adjust_weight w delta) ^^ n) 0 = word_of_int (delta * int n)"
  by (induction n) (simp_all add: adjust_weight_eq algebra_simps)

text \<open>
  The replay of a three-move history: the one board coded is the board after the second
  move, and the weight of its entry, if there is room for one, is increased by the delta of
  the outcome in 8-bit arithmetic.
\<close>

lemma update_knowledge_three_moves:
  "update_knowledge outcome [h0, c, h1] ks =
     (case find_or_create (encode_board ((replicate 9 EMPTY)[h0 := HUMAN, c := COMPUTER])) ks of
        (idx, ks') \<Rightarrow>
          ((replicate 9 EMPTY)[h0 := HUMAN, c := COMPUTER, h1 := HUMAN],
           if idx \<ge> 0
           then ks'[nat idx := (ks' ! nat idx)
                      \<lparr>weight := weight (ks' ! nat idx) + word_of_int (outcome_delta outcome)\<rparr>]
           else ks'))"
  by (simp add: update_knowledge_def update_step_def adjust_weight_eq Let_def
      split: prod.splits)

lemma outcome_delta_values:
  "outcome_delta 2 = 3 \<and> outcome_delta 0 = 1 \<and> outcome_delta 1 = - 2"
  by (simp add: outcome_delta_def)

text \<open>
  Claim C3. The weight update does not saturate: the sum is stored into the 8-bit field
  before the comparisons, so they never hold and the stored weight is the sum modulo
  \<open>2 ^ 8\<close>. Starting from weight 0, 42 wins give 126 and the next win gives \<open>-127\<close>; 127
  plus 1 gives \<open>-128\<close>; \<open>-128\<close> minus 2 gives 126.
\<close>

theorem adjust_weight_wraps:
  "sint (((\<lambda>w. adjust_weight w 3) ^^ 42) 0) = 126
   \<and> sint (((\<lambda>w. adjust_weight w 3) ^^ 43) 0) = - 127
   \<and> sint (adjust_weight 127 1) = - 128
   \<and> sint (adjust_weight (- 128) (- 2)) = 126"
proof -
  have "((\<lambda>w. adjust_weight w 3) ^^ 42) 0 = 126"
    and "((\<lambda>w. adjust_weight w 3) ^^ 43) 0 = 129"
    by (simp_all only: adjust_weight_funpow) simp_all
  then show ?thesis by (simp add: adjust_weight_eq)
qed

text \<open>
  Claim C7. After the three-move history 0, 4, 8, whose one computer move reaches the board
  with code 6723, a win recorded on an entry of weight 127 leaves the weight
  \<open>130 - 256 = -126\<close>, not 127; on an entry of weight 10 it leaves 13.
\<close>

theorem update_knowledge_win_wraps:
  "snd (update_knowledge 2 [0, 4, 8] [\<lparr>board = 6723, weight = 127\<rparr>])
     = [\<lparr>board = 6723, weight = 130\<rparr>]
   \<and> sint (130 :: 8 word) = - 126
   \<and> snd (update_knowledge 2 [0, 4, 8] [\<lparr>board = 6723, weight = 10\<rparr>])
     = [\<lparr>board = 6723, weight = 13\<rparr>]"
  by code_simp

subsection \<open>The knowledge file\<close>

lemma load_loop_records:
  "length acc \<le> 200 \<Longrightarrow> load_loop bytes acc = acc @ take (200 - length acc) (records bytes)"
proof (induction bytes acc rule: load_loop.induct)
  case (1 b0 b1 b2 rest knowledge)
  show ?case
  proof (cases "length knowledge < 200")
    case True
    then have "200 - length knowledge = Suc (200 - Suc (length knowledge))" by simp
    with True 1 show ?thesis by (simp add: MAX_KNOWLEDGE_def)
  next
    case False
    with 1 show ?thesis by (simp add: MAX_KNOWLEDGE_def)
  qed
qed simp_all

lemma length_records: "length (records bytes) = length bytes div 3"
  by (induction bytes rule: records.induct) simp_all

lemma records_nth:
  "i < length bytes div 3 \<Longrightarrow>
     records bytes ! i =
       \<lparr>board = ucast (bytes ! (3 * i)) OR push_bit 8 (ucast (bytes ! (3 * i + 1))),
        weight = bytes ! (3 * i + 2)\<rparr>"
proof (induction bytes arbitrary: i rule: records.induct)
  case (1 b0 b1 b2 rest)
  show ?case
  proof (cases i)
    case 0
    then show ?thesis by simp
  next
    case (Suc k)
    with 1 show ?thesis by simp
  qed
qed simp_all

lemma or_push_bit_nat:
  assumes "a < 2 ^ n"
  shows "a OR push_bit n b = a + 2 ^ n * (b :: nat)"
proof -
  from assms have a: "take_bit n a = a" by (rule take_bit_nat_eq_self)
  have "a AND push_bit n b = 0"
  proof (rule bit_eqI)
    fix m
    have "bit a m \<longleftrightarrow> m < n \<and> bit a m"
      using a by (metis bit_take_bit_iff)
    then show "bit (a AND push_bit n b) m \<longleftrightarrow> bit (0 :: nat) m"
      by (auto simp: bit_and_iff bit_push_bit_iff)
  qed
  then have h: "a + push_bit n b = a OR push_bit n b" by (rule disjunctive_add_eq_or)
  have e: "push_bit n b = 2 ^ n * b" by (simp add: push_bit_eq_mult)
  from h show ?thesis unfolding e by (rule sym)
qed

lemma unat_le16:
  "unat (ucast (b0 :: 8 word) OR push_bit 8 (ucast (b1 :: 8 word)) :: 16 word)
     = unat b0 + 256 * unat b1"
proof -
  have b0: "unat b0 < 2 ^ 8" and b1: "unat b1 < 2 ^ 8"
  proof -
    have "unat b0 < 2 ^ LENGTH(8)" by (rule unsigned_less)
    then show "unat b0 < 2 ^ 8" by simp
    have "unat b1 < 2 ^ LENGTH(8)" by (rule unsigned_less)
    then show "unat b1 < 2 ^ 8" by simp
  qed
  from b0 have t0: "take_bit LENGTH(16) (unat b0) = unat b0"
    by (simp add: take_bit_nat_eq_self)
  from b1 have t1: "take_bit LENGTH(16) (unat b1) = unat b1"
    by (simp add: take_bit_nat_eq_self)
  from b1 have "push_bit 8 (unat b1) < 2 ^ 16" by (simp add: push_bit_eq_mult)
  then have t2: "take_bit LENGTH(16) (push_bit 8 (unat b1)) = push_bit 8 (unat b1)"
    by (simp add: take_bit_nat_eq_self)
  have u0: "unat (ucast b0 :: 16 word) = unat b0"
    by (simp only: unsigned_ucast_eq t0)
  have u1: "unat (push_bit 8 (ucast b1 :: 16 word)) = push_bit 8 (unat b1)"
    by (simp only: unsigned_push_bit_eq unsigned_ucast_eq t1 t2)
  have "unat (ucast b0 OR push_bit 8 (ucast b1) :: 16 word) = unat b0 OR push_bit 8 (unat b1)"
    by (simp only: unsigned_or_eq u0 u1)
  also have "\<dots> = unat b0 + 2 ^ 8 * unat b1" using b0 by (rule or_push_bit_nat)
  finally show ?thesis by simp
qed

lemma and_ff: "(x :: 16 word) AND 0xff = take_bit 8 x"
proof -
  have "(0xff :: 16 word) = mask 8" by (simp add: mask_eq_exp_minus_1)
  then show ?thesis by (simp only: take_bit_eq_mask)
qed

lemma unat_ucast_byte: "unat (ucast (take_bit 8 (x :: 16 word)) :: 8 word) = unat x mod 256"
proof -
  have "unat (ucast (take_bit 8 x) :: 8 word) = take_bit 8 (take_bit 8 (unat x))"
    by (simp only: unsigned_ucast_eq unsigned_take_bit_eq) simp
  then show ?thesis by (simp add: take_bit_eq_mod)
qed

lemma low_byte: "unat (ucast (w AND 0xff) :: 8 word) = unat (w :: 16 word) mod 256"
  by (simp only: and_ff unat_ucast_byte)

lemma high_byte: "unat (ucast (drop_bit 8 w AND 0xff) :: 8 word) = unat (w :: 16 word) div 256"
proof -
  have "unat w < 2 ^ LENGTH(16)" by (rule unsigned_less)
  then have "unat w div 256 < 256" by simp
  then have "unat w div 256 mod 256 = unat w div 256" by simp
  moreover have "unat (drop_bit 8 w) = unat w div 256"
  proof -
    have "unat (drop_bit 8 w) = drop_bit 8 (unat w)" by (rule unat_drop_bit_eq)
    also have "\<dots> = unat w div 256" by (simp add: drop_bit_eq_div)
    finally show ?thesis .
  qed
  ultimately show ?thesis by (simp only: and_ff unat_ucast_byte)
qed

lemma entry_roundtrip:
  "(ucast (ucast (w AND 0xff) :: 8 word) OR
      push_bit 8 (ucast (ucast (drop_bit 8 w AND 0xff) :: 8 word))) = (w :: 16 word)"
proof -
  have "unat (ucast (ucast (w AND 0xff) :: 8 word) OR
      push_bit 8 (ucast (ucast (drop_bit 8 w AND 0xff) :: 8 word)) :: 16 word) = unat w"
    by (simp only: unat_le16 high_byte) (simp only: low_byte, simp)
  then show ?thesis by (simp only: word_unat_eq_iff)
qed

lemma records_entry_bytes: "records (entry_bytes e @ rest) = e # records rest"
  by (simp add: entry_bytes_def entry_roundtrip)

lemma records_save: "records (concat (map entry_bytes ks)) = ks"
  by (induction ks) (simp_all add: records_entry_bytes)

lemma length_save: "length (concat (map entry_bytes ks)) = 3 * length ks"
  by (induction ks) (simp_all add: entry_bytes_def)

lemma nth_save:
  "i < length ks \<Longrightarrow>
     concat (map entry_bytes ks) ! (3 * i) = ucast (board (ks ! i) AND 0xff)
   \<and> concat (map entry_bytes ks) ! (3 * i + 1) = ucast (drop_bit 8 (board (ks ! i)) AND 0xff)
   \<and> concat (map entry_bytes ks) ! (3 * i + 2) = weight (ks ! i)"
proof (induction ks arbitrary: i)
  case Nil
  then show ?case by simp
next
  case (Cons e es)
  show ?case
  proof (cases i)
    case 0
    then show ?thesis by (simp add: entry_bytes_def)
  next
    case (Suc k)
    with Cons.prems have "k < length es" by simp
    from Cons.IH [OF this] Suc show ?thesis by (simp add: entry_bytes_def)
  qed
qed

text \<open>
  Claim C5, as amended. \<^verbatim>\<open>load_knowledge\<close> checks no code. For every byte stream it
  returns, without failing, the first \<open>min 200 (length div 3)\<close> complete records in order,
  each as it is in the stream: the code is \<open>byte 0 + 256 \<sqdot> byte 1\<close>, any value from 0 to
  65535, and the weight is byte 2. No record is skipped.
\<close>

theorem load_knowledge_verbatim:
  "fst (load_knowledge (Some bytes) knowledge) = int (min 200 (length bytes div 3))
   \<and> length (snd (load_knowledge (Some bytes) knowledge)) = min 200 (length bytes div 3)
   \<and> (\<forall>i < min 200 (length bytes div 3).
         unat (board (snd (load_knowledge (Some bytes) knowledge) ! i))
           = unat (bytes ! (3 * i)) + 256 * unat (bytes ! (3 * i + 1))
         \<and> weight (snd (load_knowledge (Some bytes) knowledge) ! i) = bytes ! (3 * i + 2))"
proof -
  have k: "snd (load_knowledge (Some bytes) knowledge) = take 200 (records bytes)"
    and n: "fst (load_knowledge (Some bytes) knowledge) = int (length (take 200 (records bytes)))"
    using load_loop_records [of "[]" bytes] by (simp_all add: load_knowledge_def Let_def)
  have len: "length (take 200 (records bytes)) = min 200 (length bytes div 3)"
    by (simp add: length_records min.commute)
  have "\<And>i. i < min 200 (length bytes div 3) \<Longrightarrow>
      unat (board (take 200 (records bytes) ! i))
        = unat (bytes ! (3 * i)) + 256 * unat (bytes ! (3 * i + 1))
      \<and> weight (take 200 (records bytes) ! i) = bytes ! (3 * i + 2)"
    by (simp add: records_nth unat_le16)
  with k n len show ?thesis by simp
qed

theorem load_knowledge_verbatim_witness:
  "load_knowledge (Some [0x43, 0x1a, 0xfe, 0x07]) [] = (1, [\<lparr>board = 6723, weight = 0xfe\<rparr>])
   \<and> unat (board (snd (load_knowledge (Some [0x43, 0x1a, 0xfe, 0x07]) []) ! 0)) = 67 + 256 * 26"
proof -
  let ?bytes = "[0x43, 0x1a, 0xfe, 0x07] :: 8 word list"
  have h: "(0 :: nat) < min 200 (length ?bytes div 3)" by simp
  from load_knowledge_verbatim [of ?bytes "[]"] h
  have "unat (board (snd (load_knowledge (Some ?bytes) []) ! 0))
          = unat (?bytes ! (3 * 0)) + 256 * unat (?bytes ! (3 * 0 + 1))" by blast
  moreover have "load_knowledge (Some ?bytes) [] = (1, [\<lparr>board = 6723, weight = 0xfe\<rparr>])"
    by code_simp
  ultimately show ?thesis by simp
qed

text \<open>
  Claim C5 as stated fails: the record \<open>ff ff 00\<close> is loaded as an entry with code 65535,
  above 19682; the load returns 1, the number of entries, and skips nothing.
\<close>

theorem load_knowledge_range_counterexample:
  "load_knowledge (Some [0xff, 0xff, 0x00]) [] = (1, [\<lparr>board = 65535, weight = 0\<rparr>])
   \<and> \<not> (65535 :: 16 word) \<le> 19682"
  by code_simp

text \<open>
  Claim C6. \<^verbatim>\<open>save_knowledge\<close> writes three bytes for each entry and nothing else: the
  code as two bytes, low byte first, then the weight byte. For a table of at most 200
  entries \<^verbatim>\<open>load_knowledge\<close> on these bytes gives back the same entries in the same order,
  whatever the table held before.
\<close>

theorem save_load_roundtrip:
  assumes "length knowledge \<le> 200"
  shows "\<exists>bytes. save_knowledge True knowledge = (int (length knowledge), Some bytes)
      \<and> length bytes = 3 * length knowledge
      \<and> (\<forall>i < length knowledge.
            unat (bytes ! (3 * i)) + 256 * unat (bytes ! (3 * i + 1)) = unat (board (knowledge ! i))
            \<and> bytes ! (3 * i + 2) = weight (knowledge ! i))
      \<and> load_knowledge (Some bytes) old = (int (length knowledge), knowledge)"
proof -
  let ?bytes = "concat (map entry_bytes knowledge)"
  have s: "save_knowledge True knowledge = (int (length knowledge), Some ?bytes)"
    by (simp add: save_knowledge_def)
  have f: "\<forall>i < length knowledge.
            unat (?bytes ! (3 * i)) + 256 * unat (?bytes ! (3 * i + 1)) = unat (board (knowledge ! i))
            \<and> ?bytes ! (3 * i + 2) = weight (knowledge ! i)"
  proof (intro allI impI)
    fix i assume "i < length knowledge"
    from nth_save [OF this]
    have "?bytes ! (3 * i) = ucast (board (knowledge ! i) AND 0xff)"
      and "?bytes ! (3 * i + 1) = ucast (drop_bit 8 (board (knowledge ! i)) AND 0xff)"
      and "?bytes ! (3 * i + 2) = weight (knowledge ! i)" by blast+
    then show "unat (?bytes ! (3 * i)) + 256 * unat (?bytes ! (3 * i + 1))
          = unat (board (knowledge ! i))
        \<and> ?bytes ! (3 * i + 2) = weight (knowledge ! i)"
      by (simp only: high_byte) (simp only: low_byte, simp)
  qed
  have "load_loop ?bytes [] = take 200 (records ?bytes)"
    using load_loop_records [of "[]" ?bytes] by simp
  with assms have "load_loop ?bytes [] = knowledge" by (simp add: records_save)
  then have l: "load_knowledge (Some ?bytes) old = (int (length knowledge), knowledge)"
    by (simp add: load_knowledge_def)
  from s f l show ?thesis by (intro exI [of _ ?bytes]) (simp add: length_save)
qed

theorem save_load_roundtrip_witness:
  "save_knowledge True [\<lparr>board = 6723, weight = 0xfe\<rparr>, \<lparr>board = 300, weight = 3\<rparr>]
     = (2, Some [0x43, 0x1a, 0xfe, 0x2c, 0x01, 0x03])
   \<and> load_knowledge (Some [0x43, 0x1a, 0xfe, 0x2c, 0x01, 0x03]) [\<lparr>board = 1, weight = 1\<rparr>]
     = (2, [\<lparr>board = 6723, weight = 0xfe\<rparr>, \<lparr>board = 300, weight = 3\<rparr>])"
proof -
  let ?k = "[\<lparr>board = 6723, weight = 0xfe\<rparr>, \<lparr>board = 300, weight = 3\<rparr>]"
  have h: "length ?k \<le> 200" by simp
  from save_load_roundtrip [OF h, of "[\<lparr>board = 1, weight = 1\<rparr>]"]
  obtain bytes where b: "save_knowledge True ?k = (int (length ?k), Some bytes)"
    and l: "load_knowledge (Some bytes) [\<lparr>board = 1, weight = 1\<rparr>] = (int (length ?k), ?k)"
    by blast
  have s: "save_knowledge True ?k = (2, Some [0x43, 0x1a, 0xfe, 0x2c, 0x01, 0x03])"
    by code_simp
  with b have "bytes = [0x43, 0x1a, 0xfe, 0x2c, 0x01, 0x03]" by simp
  with l s show ?thesis by simp
qed

section \<open>Properties of the 2024 program\<close>




text \<open>
  Position 9 of the initial board holds NUL, so the input 9 is refused. On the input
  1, 9, 7, 4 the computer answers 1 with 5, the 9 is refused, the computer answers 7 with
  4, and the human's 4 is refused: the input ends with no winner.
\<close>

lemma board_init_square_9:
  "board_init ! 9 \<noteq> CHR '' ''
   \<and> turns CHR ''X'' CHR ''O'' 0 [1, 9, 7, 4] board_init = None
   \<and> turns CHR ''X'' CHR ''O'' 0 [1] board_init = None"
  by code_simp


end
